theory Spec2Isabelle
  imports Main
begin

section \<open>Go strings and the library functions used by env.go\<close>

text \<open>
  A Go string is a sequence of bytes; \<^typ>\<open>string\<close> is a list of 8-bit characters, so
  a text in UTF-8 is the list of its bytes.  The functions below follow the Go standard
  library (packages \<^verbatim>\<open>strings\<close>, \<^verbatim>\<open>unicode\<close> and \<^verbatim>\<open>syscall\<close>) for the
  arguments env.go passes to them.
\<close>

text \<open>\<^verbatim>\<open>strings.HasPrefix(s, prefix)\<close>: \<^verbatim>\<open>len(s) >= len(prefix) && s[:len(prefix)] == prefix\<close>.\<close>

definition HasPrefix :: "string \<Rightarrow> string \<Rightarrow> bool" where
  "HasPrefix s p \<longleftrightarrow> length p \<le> length s \<and> take (length p) s = p"

text \<open>\<^verbatim>\<open>strings.HasSuffix(s, suffix)\<close>: \<^verbatim>\<open>len(s) >= len(suffix) && s[len(s)-len(suffix):] == suffix\<close>.\<close>

definition HasSuffix :: "string \<Rightarrow> string \<Rightarrow> bool" where
  "HasSuffix s p \<longleftrightarrow> length p \<le> length s \<and> drop (length s - length p) s = p"

text \<open>
  \<^verbatim>\<open>strings.SplitN(s, sep, n)\<close> for a separator of one byte: at most \<open>n\<close> pieces, the
  last one the unsplit remainder; \<open>n = 0\<close> gives the empty slice.
\<close>

fun SplitN :: "string \<Rightarrow> char \<Rightarrow> nat \<Rightarrow> string list" where
  "SplitN s sep 0 = []"
| "SplitN s sep (Suc 0) = [s]"
| "SplitN s sep (Suc (Suc n)) =
     (if sep \<in> set s
      then takeWhile (\<lambda>c. c \<noteq> sep) s # SplitN (tl (dropWhile (\<lambda>c. c \<noteq> sep) s)) sep (Suc n)
      else [s])"

text \<open>
  The runes for which \<^verbatim>\<open>unicode.IsSpace\<close> holds, each as its UTF-8 encoding: the six
  ASCII ones (tab, line feed, vertical tab, form feed, carriage return, space), U+0085,
  U+00A0, U+1680, U+2000 to U+200A, U+2028, U+2029, U+202F, U+205F and U+3000.
\<close>

definition spaceRunes :: "string list" where
  "spaceRunes =
    [[CHR 0x09], [CHR 0x0A], [CHR 0x0B], [CHR 0x0C], [CHR 0x0D], [CHR 0x20],
     [CHR 0xC2, CHR 0x85], [CHR 0xC2, CHR 0xA0],
     [CHR 0xE1, CHR 0x9A, CHR 0x80],
     [CHR 0xE2, CHR 0x80, CHR 0x80], [CHR 0xE2, CHR 0x80, CHR 0x81],
     [CHR 0xE2, CHR 0x80, CHR 0x82], [CHR 0xE2, CHR 0x80, CHR 0x83],
     [CHR 0xE2, CHR 0x80, CHR 0x84], [CHR 0xE2, CHR 0x80, CHR 0x85],
     [CHR 0xE2, CHR 0x80, CHR 0x86], [CHR 0xE2, CHR 0x80, CHR 0x87],
     [CHR 0xE2, CHR 0x80, CHR 0x88], [CHR 0xE2, CHR 0x80, CHR 0x89],
     [CHR 0xE2, CHR 0x80, CHR 0x8A],
     [CHR 0xE2, CHR 0x80, CHR 0xA8], [CHR 0xE2, CHR 0x80, CHR 0xA9],
     [CHR 0xE2, CHR 0x80, CHR 0xAF],
     [CHR 0xE2, CHR 0x81, CHR 0x9F],
     [CHR 0xE3, CHR 0x80, CHR 0x80]]"

text \<open>The width in bytes of a white-space rune at the start (at the end) of \<open>s\<close>, 0 if there is none.\<close>

definition leadingSpace :: "string \<Rightarrow> nat" where
  "leadingSpace s = (case filter (HasPrefix s) spaceRunes of [] \<Rightarrow> 0 | p # _ \<Rightarrow> length p)"

definition trailingSpace :: "string \<Rightarrow> nat" where
  "trailingSpace s = (case filter (HasSuffix s) spaceRunes of [] \<Rightarrow> 0 | p # _ \<Rightarrow> length p)"

lemma leadingSpace_le: "leadingSpace s \<le> length s"
  by (auto simp: leadingSpace_def HasPrefix_def filter_eq_Cons_iff split: list.splits)

lemma trailingSpace_le: "trailingSpace s \<le> length s"
  by (auto simp: trailingSpace_def HasSuffix_def filter_eq_Cons_iff split: list.splits)

text \<open>\<^verbatim>\<open>strings.TrimLeftFunc(s, unicode.IsSpace)\<close> and \<^verbatim>\<open>strings.TrimRightFunc(s, unicode.IsSpace)\<close>.\<close>

function TrimLeftSpace :: "string \<Rightarrow> string" where
  "TrimLeftSpace s =
     (if leadingSpace s = 0 then s else TrimLeftSpace (drop (leadingSpace s) s))"
  by pat_completeness auto
termination
proof (relation "measure length")
  fix s :: string
  assume "leadingSpace s \<noteq> 0"
  moreover have "leadingSpace s \<le> length s" by (rule leadingSpace_le)
  ultimately show "(drop (leadingSpace s) s, s) \<in> measure length"
    by simp
qed simp

function TrimRightSpace :: "string \<Rightarrow> string" where
  "TrimRightSpace s =
     (if trailingSpace s = 0 then s
      else TrimRightSpace (take (length s - trailingSpace s) s))"
  by pat_completeness auto
termination
proof (relation "measure length")
  fix s :: string
  assume "trailingSpace s \<noteq> 0"
  moreover have "trailingSpace s \<le> length s" by (rule trailingSpace_le)
  ultimately show "(take (length s - trailingSpace s) s, s) \<in> measure length"
    by simp
qed simp

declare TrimLeftSpace.simps [simp del] TrimRightSpace.simps [simp del]

text \<open>
  \<^verbatim>\<open>strings.TrimSpace(s)\<close>: \<open>s\<close> without its leading and trailing white space.  The
  library's fast path for ASCII returns the same slice as the two general functions.
\<close>

definition TrimSpace :: "string \<Rightarrow> string" where
  "TrimSpace s = TrimRightSpace (TrimLeftSpace s)"

text \<open>
  \<^verbatim>\<open>strings.Trim(s, cutset)\<close> for a cutset of ASCII bytes: the library takes the bytes of
  the cutset off the end, then off the start, one byte at a time.
\<close>

fun trimLeftASCII :: "string \<Rightarrow> string \<Rightarrow> string" where
  "trimLeftASCII [] as = []"
| "trimLeftASCII (c # cs) as = (if c \<in> set as then trimLeftASCII cs as else c # cs)"

function trimRightASCII :: "string \<Rightarrow> string \<Rightarrow> string" where
  "trimRightASCII s as =
     (if s \<noteq> [] \<and> last s \<in> set as then trimRightASCII (butlast s) as else s)"
  by pat_completeness auto
termination
  by (relation "measure (\<lambda>(s, as). length s)") auto

declare trimRightASCII.simps [simp del]

definition Trim :: "string \<Rightarrow> string \<Rightarrow> string" where
  "Trim s cutset =
     (if s = [] \<or> cutset = [] then s
      else trimLeftASCII (trimRightASCII s cutset) cutset)"

text \<open>The cutset of env.go, lines 68 and 109: the double and the single quote character.\<close>

definition quoteCutset :: string where
  "quoteCutset = [CHR 0x22, CHR 0x27]"

section \<open>The environment and the files\<close>

text \<open>
  The process environment is a map from names to values.  \<^verbatim>\<open>os.Setenv\<close> (through
  \<^verbatim>\<open>syscall.Setenv\<close> on Unix) refuses an empty name, a name with \<open>=\<close> or a NUL
  byte and a value with a NUL byte: it returns EINVAL and leaves the environment as it
  was.  Every other call stores the value under the name, replacing an earlier one.
\<close>

type_synonym environment = "string \<rightharpoonup> string"

datatype errno = EINVAL

definition Setenv :: "string \<Rightarrow> string \<Rightarrow> environment \<Rightarrow> errno option \<times> environment" where
  "Setenv key val env =
     (if key = [] \<or> CHR ''='' \<in> set key \<or> CHR 0x00 \<in> set key \<or> CHR 0x00 \<in> set val
      then (Some EINVAL, env)
      else (None, env(key \<mapsto> val)))"

text \<open>
  What \<^verbatim>\<open>os.Open\<close> and the \<^verbatim>\<open>bufio.Scanner\<close> make of a file name: either the open
  fails, or the scanner delivers lines (without their terminators) in file order until
  \<^verbatim>\<open>Scan\<close> returns false, and \<^verbatim>\<open>scanner.Err()\<close> is then nil (the end of the file)
  or the error that ended the iteration.
\<close>

datatype ioerror = IOError string

datatype source = OpenFails ioerror | Opened "string list" "ioerror option"

record world =
  files :: "string \<Rightarrow> source"
  environ :: environment

section \<open>env.go\<close>

text \<open>
  The loop of \<^verbatim>\<open>LoadEnv\<close> (lines 55 to 71) over the lines the scanner delivers.  The
  result of \<^verbatim>\<open>os.Setenv\<close> is dropped, as in the source.
\<close>

fun LoadEnv_loop :: "string list \<Rightarrow> environment \<Rightarrow> environment" where
  "LoadEnv_loop [] env = env"
| "LoadEnv_loop (line # rest) env =
     (if line = [] \<or> HasPrefix line ''#'' then LoadEnv_loop rest env
      else
        let parts = SplitN line CHR ''='' 2 in
        if length parts \<noteq> 2 then LoadEnv_loop rest env
        else
          let key = TrimSpace (parts ! 0);
              val = TrimSpace (parts ! 1);
              val = Trim val quoteCutset
          in LoadEnv_loop rest (snd (Setenv key val env)))"

definition LoadEnv :: "string \<Rightarrow> world \<Rightarrow> ioerror option \<times> world" where
  "LoadEnv filename w =
     (case files w filename of
        OpenFails err \<Rightarrow> (Some err, w)
      | Opened lines err \<Rightarrow> (err, w\<lparr>environ := LoadEnv_loop lines (environ w)\<rparr>))"

text \<open>
  The loop of \<^verbatim>\<open>GetEnv\<close> (lines 96 to 111): \<open>Some\<close> is the \<^verbatim>\<open>return\<close> inside the
  loop, \<open>None\<close> is the loop running to its end.
\<close>

fun GetEnv_loop :: "string \<Rightarrow> string list \<Rightarrow> string option" where
  "GetEnv_loop key [] = None"
| "GetEnv_loop key (line # rest) =
     (if line = [] \<or> HasPrefix line ''#'' then GetEnv_loop key rest
      else
        let parts = SplitN line CHR ''='' 2 in
        if length parts \<noteq> 2 then GetEnv_loop key rest
        else if TrimSpace (parts ! 0) = key
        then let val = TrimSpace (parts ! 1) in Some (Trim val quoteCutset)
        else GetEnv_loop key rest)"

definition GetEnv :: "string \<Rightarrow> string \<Rightarrow> world \<Rightarrow> (string \<times> ioerror option) \<times> world" where
  "GetEnv key filename w =
     (case files w filename of
        OpenFails err \<Rightarrow> (([], Some err), w)
      | Opened lines err \<Rightarrow>
          (case GetEnv_loop key lines of
             Some val \<Rightarrow> ((val, None), w)
           | None \<Rightarrow> (([], err), w)))"

section \<open>Notions for stating the properties\<close>


text \<open>
  What both loop bodies compute from one line (lines 57 to 68, and 98 to 109): the
  trimmed key with the trimmed value after \<^verbatim>\<open>strings.Trim\<close>, or \<open>None\<close> where
  they \<^verbatim>\<open>continue\<close>.
\<close>

definition entry :: "string \<Rightarrow> (string \<times> string) option" where
  "entry line =
     (if line = [] \<or> HasPrefix line ''#'' then None
      else
        let parts = SplitN line CHR ''='' 2 in
        if length parts \<noteq> 2 then None
        else Some (TrimSpace (parts ! 0), Trim (TrimSpace (parts ! 1)) quoteCutset))"

definition entries :: "string list \<Rightarrow> (string \<times> string) list" where
  "entries lines = List.map_filter entry lines"

text \<open>The calls of \<^verbatim>\<open>os.Setenv\<close> that return nil.\<close>

definition accepted :: "string \<times> string \<Rightarrow> bool" where
  "accepted kv \<longleftrightarrow> fst (Setenv (fst kv) (snd kv) Map.empty) = None"


section \<open>Facts about the library functions\<close>









section \<open>The two loops in terms of entries\<close>

lemma LoadEnv_loop_Cons:
  "LoadEnv_loop (line # rest) env =
     (case entry line of
        None \<Rightarrow> LoadEnv_loop rest env
      | Some (k, v) \<Rightarrow> LoadEnv_loop rest (snd (Setenv k v env)))"
  by (simp add: entry_def Let_def)

lemma GetEnv_loop_Cons:
  "GetEnv_loop key (line # rest) =
     (case entry line of
        None \<Rightarrow> GetEnv_loop key rest
      | Some (k, v) \<Rightarrow> if k = key then Some v else GetEnv_loop key rest)"
  by (simp add: entry_def Let_def)

lemma entries_Nil: "entries [] = []"
  by (simp add: entries_def map_filter_simps)

lemma entries_Cons:
  "entries (line # rest) = (case entry line of None \<Rightarrow> entries rest | Some kv \<Rightarrow> kv # entries rest)"
  by (simp add: entries_def map_filter_simps split: option.split)

lemma entries_append: "entries (xs @ ys) = entries xs @ entries ys"
  by (simp add: entries_def map_filter_def)

lemma LoadEnv_loop_fold:
  "LoadEnv_loop lines env = foldl (\<lambda>e (k, v). snd (Setenv k v e)) env (entries lines)"
proof (induction lines arbitrary: env)
  case Nil
  show ?case by (simp add: entries_Nil)
next
  case (Cons line rest)
  show ?case
    by (cases "entry line") (auto simp: LoadEnv_loop_Cons entries_Cons Cons.IH simp del: LoadEnv_loop.simps)
qed

lemma snd_Setenv: "snd (Setenv k v env) = (if accepted (k, v) then env(k \<mapsto> v) else env)"
  by (simp add: Setenv_def accepted_def)

lemma foldl_Setenv:
  "foldl (\<lambda>e (k, v). snd (Setenv k v e)) env kvs = env ++ map_of (rev (filter accepted kvs))"
proof (induction kvs arbitrary: env)
  case Nil
  show ?case by simp
next
  case (Cons kv kvs)
  obtain k v where kv: "kv = (k, v)" by (cases kv)
  let ?F = "\<lambda>e (k, v). snd (Setenv k v e)"
  show ?case
  proof (cases "accepted (k, v)")
    case True
    have "foldl ?F env (kv # kvs) = foldl ?F (snd (Setenv k v env)) kvs"
      by (simp add: kv)
    also have "\<dots> = snd (Setenv k v env) ++ map_of (rev (filter accepted kvs))"
      by (rule Cons.IH)
    also have "snd (Setenv k v env) = env ++ [k \<mapsto> v]"
      using True by (simp add: snd_Setenv)
    also have "env ++ [k \<mapsto> v] ++ map_of (rev (filter accepted kvs))
        = env ++ map_of (rev (filter accepted (kv # kvs)))"
      using True by (simp add: kv map_of_append)
    finally show ?thesis .
  next
    case False
    have "foldl ?F env (kv # kvs) = foldl ?F (snd (Setenv k v env)) kvs"
      by (simp add: kv)
    also have "\<dots> = snd (Setenv k v env) ++ map_of (rev (filter accepted kvs))"
      by (rule Cons.IH)
    also have "snd (Setenv k v env) = env"
      using False by (simp add: snd_Setenv)
    also have "env ++ map_of (rev (filter accepted kvs))
        = env ++ map_of (rev (filter accepted (kv # kvs)))"
      using False by (simp add: kv)
    finally show ?thesis .
  qed
qed

lemma LoadEnv_loop_map:
  "LoadEnv_loop lines env = env ++ map_of (rev (filter accepted (entries lines)))"
  by (simp only: LoadEnv_loop_fold foldl_Setenv)

lemma map_add_twice: "(env ++ m) ++ m = env ++ (m :: 'a \<rightharpoonup> 'b)"
  by (rule ext) (simp add: map_add_def split: option.split)

lemma LoadEnv_loop_twice: "LoadEnv_loop lines (LoadEnv_loop lines env) = LoadEnv_loop lines env"
  by (simp only: LoadEnv_loop_map map_add_twice)


lemma loops_entry:
  assumes "entry line = Some (k, v)"
  shows "GetEnv_loop k (line # rest) = Some v"
    and "LoadEnv_loop (line # rest) env = LoadEnv_loop rest (snd (Setenv k v env))"
  using assms
  by (simp_all add: GetEnv_loop_Cons LoadEnv_loop_Cons del: GetEnv_loop.simps LoadEnv_loop.simps)

lemma loops_skip:
  assumes "entry line = None"
  shows "GetEnv_loop key (line # rest) = GetEnv_loop key rest"
    and "LoadEnv_loop (line # rest) env = LoadEnv_loop rest env"
  using assms
  by (simp_all add: GetEnv_loop_Cons LoadEnv_loop_Cons del: GetEnv_loop.simps LoadEnv_loop.simps)










lemma GetEnv_loop_first:
  assumes "\<forall>l \<in> set pre. \<forall>v'. entry l \<noteq> Some (key, v')" and "entry line = Some (key, v)"
  shows "GetEnv_loop key (pre @ line # post) = Some v"
  using assms(1)
proof (induction pre)
  case Nil
  from loops_entry(1)[OF assms(2)] show ?case by simp
next
  case (Cons l pre)
  then have "GetEnv_loop key (l # (pre @ line # post)) = GetEnv_loop key (pre @ line # post)"
    by (subst GetEnv_loop_Cons) (auto split: option.split)
  with Cons show ?case by simp
qed


lemma GetEnv_loop_present:
  assumes "\<exists>l \<in> set lines. \<exists>v. entry l = Some (key, v)"
  shows "\<exists>pre line post v. lines = pre @ line # post
          \<and> (\<forall>l \<in> set pre. \<forall>v'. entry l \<noteq> Some (key, v'))
          \<and> entry line = Some (key, v)
          \<and> (\<forall>post'. GetEnv_loop key (pre @ line # post') = Some v)"
proof -
  from assms obtain pre line post
    where d: "lines = pre @ line # post" "\<exists>v. entry line = Some (key, v)"
      "\<forall>l \<in> set pre. \<not> (\<exists>v. entry l = Some (key, v))"
    using split_list_first_prop[of lines "\<lambda>l. \<exists>v. entry l = Some (key, v)"] by blast
  from d(2) obtain v where v: "entry line = Some (key, v)" by blast
  from d(3) have n: "\<forall>l \<in> set pre. \<forall>v'. entry l \<noteq> Some (key, v')" by blast
  from GetEnv_loop_first[OF n v] d(1) n v show ?thesis by blast
qed

lemma accepted_iff:
  "accepted (k, v) \<longleftrightarrow>
     k \<noteq> [] \<and> CHR ''='' \<notin> set k \<and> CHR 0x00 \<notin> set k \<and> CHR 0x00 \<notin> set v"
  by (simp add: accepted_def Setenv_def)

lemma LoadEnv_loop_append:
  "LoadEnv_loop (xs @ ys) env = LoadEnv_loop ys (LoadEnv_loop xs env)"
  by (simp add: LoadEnv_loop_fold entries_append)

lemma LoadEnv_loop_untouched:
  assumes "\<forall>l \<in> set lines. \<forall>v. entry l = Some (k, v) \<longrightarrow> \<not> accepted (k, v)"
  shows "LoadEnv_loop lines env k = env k"
  using assms
proof (induction lines arbitrary: env)
  case Nil
  show ?case by simp
next
  case (Cons l lines)
  then have ih: "LoadEnv_loop lines env' k = env' k" for env' by simp
  show ?case
  proof (cases "entry l")
    case None
    with ih show ?thesis by (simp only: loops_skip(2))
  next
    case (Some kv)
    obtain k' v' where kv: "kv = (k', v')" by (cases kv)
    from Cons.prems Some kv have "k' = k \<longrightarrow> \<not> accepted (k', v')" by simp
    then have "snd (Setenv k' v' env) k = env k" by (auto simp: snd_Setenv)
    moreover have "LoadEnv_loop (l # lines) env = LoadEnv_loop lines (snd (Setenv k' v' env))"
      using Some kv by (intro loops_entry(2)) simp
    ultimately show ?thesis using ih by simp
  qed
qed

lemma LoadEnv_loop_last:
  assumes "entry line = Some (k, v)" and "accepted (k, v)"
    and "\<forall>l \<in> set post. \<forall>v'. entry l = Some (k, v') \<longrightarrow> \<not> accepted (k, v')"
  shows "LoadEnv_loop (pre @ line # post) env k = Some v"
proof -
  have "LoadEnv_loop (pre @ line # post) env k
      = LoadEnv_loop post (snd (Setenv k v (LoadEnv_loop pre env))) k"
    by (simp only: LoadEnv_loop_append loops_entry(2)[OF assms(1)])
  also have "\<dots> = snd (Setenv k v (LoadEnv_loop pre env)) k"
    using assms(3) by (rule LoadEnv_loop_untouched)
  also have "\<dots> = Some v"
    using assms(2) by (simp add: snd_Setenv)
  finally show ?thesis .
qed

section \<open>Lines: what is ignored and where a line is split\<close>





section \<open>Value normalization\<close>











section \<open>First match in GetEnv, last write in LoadEnv\<close>

text \<open>
  C3.  When some line of the file yields an entry whose key is the target key, there
  is a first such line, and \<^verbatim>\<open>GetEnv\<close> returns its value with a nil error.  The
  result is the same whatever lines follow that line and however the reading would
  end after it: nothing after the first match is examined.
\<close>

theorem C3_GetEnv_first_match:
  assumes "files w filename = Opened lines err"
    and "\<exists>l \<in> set lines. \<exists>v. entry l = Some (key, v)"
  shows "\<exists>pre line post v. lines = pre @ line # post
          \<and> (\<forall>l \<in> set pre. \<forall>v'. entry l \<noteq> Some (key, v'))
          \<and> entry line = Some (key, v)
          \<and> GetEnv key filename w = ((v, None), w)
          \<and> (\<forall>post' err' w'. files w' filename = Opened (pre @ line # post') err'
                \<longrightarrow> GetEnv key filename w' = ((v, None), w'))"
proof -
  from GetEnv_loop_present[OF assms(2)] obtain pre line post v
    where d: "lines = pre @ line # post" "\<forall>l \<in> set pre. \<forall>v'. entry l \<noteq> Some (key, v')"
      "entry line = Some (key, v)" "\<forall>post'. GetEnv_loop key (pre @ line # post') = Some v"
    by blast
  have g: "GetEnv key filename w' = ((v, None), w')"
    if "files w' filename = Opened (pre @ line # post') err'" for post' err' w'
    using that d(4) by (simp add: GetEnv_def)
  from g[of w post err] assms(1) d(1) have "GetEnv key filename w = ((v, None), w)" by simp
  with d(1,2,3) g show ?thesis by blast
qed

theorem C3_GetEnv_first_match_witness:
  "files \<lparr>files = \<lambda>_. Opened [''B=0'', ''A=1'', ''A=2''] None, environ = Map.empty\<rparr> ''.env''
     = Opened [''B=0'', ''A=1'', ''A=2''] None
   \<and> (\<exists>l \<in> set [''B=0'', ''A=1'', ''A=2'']. \<exists>v. entry l = Some (''A'', v))
   \<and> (\<exists>pre line post v. [''B=0'', ''A=1'', ''A=2''] = pre @ line # post
         \<and> (\<forall>l \<in> set pre. \<forall>v'. entry l \<noteq> Some (''A'', v'))
         \<and> entry line = Some (''A'', v)
         \<and> GetEnv ''A'' ''.env''
              \<lparr>files = \<lambda>_. Opened [''B=0'', ''A=1'', ''A=2''] None, environ = Map.empty\<rparr>
            = ((v, None),
               \<lparr>files = \<lambda>_. Opened [''B=0'', ''A=1'', ''A=2''] None, environ = Map.empty\<rparr>)
         \<and> (\<forall>post' err' w'. files w' ''.env'' = Opened (pre @ line # post') err'
               \<longrightarrow> GetEnv ''A'' ''.env'' w' = ((v, None), w')))
   \<and> fst (GetEnv ''A'' ''.env''
            \<lparr>files = \<lambda>_. Opened [''B=0'', ''A=1'', ''A=2''] None, environ = Map.empty\<rparr>)
       = (''1'', None)"
proof -
  let ?w = "\<lparr>files = \<lambda>_. Opened [''B=0'', ''A=1'', ''A=2''] None, environ = Map.empty\<rparr>"
  have h1: "files ?w ''.env'' = Opened [''B=0'', ''A=1'', ''A=2''] None" by simp
  have e: "entry ''A=1'' = Some (''A'', ''1'')" by code_simp
  then have h2: "\<exists>l \<in> set [''B=0'', ''A=1'', ''A=2'']. \<exists>v. entry l = Some (''A'', v)" by simp
  have v: "fst (GetEnv ''A'' ''.env'' ?w) = (''1'', None)" by code_simp
  from h1 h2 v C3_GetEnv_first_match [OF h1 h2] show ?thesis by blast
qed

text \<open>
  C2, as the specification has it, fails for a key that \<^verbatim>\<open>os.Setenv\<close> refuses.  The
  lines \<^verbatim>\<open>=1\<close> and \<^verbatim>\<open>=2\<close> give the empty key twice; \<^verbatim>\<open>LoadEnv\<close> returns nil and
  the environment holds nothing under the empty key.
\<close>

theorem C2_counterexample:
  "entries [''=1'', ''=2''] = [([], ''1''), ([], ''2'')]
   \<and> fst (LoadEnv ''.env'' \<lparr>files = \<lambda>_. Opened [''=1'', ''=2''] None, environ = Map.empty\<rparr>)
       = None
   \<and> environ (snd (LoadEnv ''.env''
        \<lparr>files = \<lambda>_. Opened [''=1'', ''=2''] None, environ = Map.empty\<rparr>)) [] = None"
  by code_simp

text \<open>
  C2, amended.  \<^verbatim>\<open>LoadEnv\<close> calls \<^verbatim>\<open>os.Setenv\<close> once for each entry, in file order,
  and drops the result.  A key holds at the end the value of its last entry that
  \<^verbatim>\<open>os.Setenv\<close> accepts (key not empty, no NUL byte in key or value), each accepted
  call replacing the earlier value; a key with no accepted entry keeps what the
  environment held before.
\<close>

theorem C2_LoadEnv_last_accepted_wins:
  assumes "files w filename = Opened lines err"
  shows "environ (snd (LoadEnv filename w))
           = foldl (\<lambda>e (k, v). snd (Setenv k v e)) (environ w) (entries lines)
       \<and> (\<forall>pre line post k v.
            lines = pre @ line # post \<and> entry line = Some (k, v) \<and> accepted (k, v)
            \<and> (\<forall>l \<in> set post. \<forall>v'. entry l = Some (k, v') \<longrightarrow> \<not> accepted (k, v'))
            \<longrightarrow> environ (snd (LoadEnv filename w)) k = Some v)
       \<and> (\<forall>k. (\<forall>l \<in> set lines. \<forall>v. entry l = Some (k, v) \<longrightarrow> \<not> accepted (k, v))
            \<longrightarrow> environ (snd (LoadEnv filename w)) k = environ w k)"
proof -
  have env: "environ (snd (LoadEnv filename w)) = LoadEnv_loop lines (environ w)"
    using assms by (simp add: LoadEnv_def)
  show ?thesis
    unfolding env
  proof (intro conjI allI impI)
    show "LoadEnv_loop lines (environ w)
        = foldl (\<lambda>e (k, v). snd (Setenv k v e)) (environ w) (entries lines)"
      by (rule LoadEnv_loop_fold)
  next
    fix pre line post k v
    assume "lines = pre @ line # post \<and> entry line = Some (k, v) \<and> accepted (k, v)
            \<and> (\<forall>l \<in> set post. \<forall>v'. entry l = Some (k, v') \<longrightarrow> \<not> accepted (k, v'))"
    then show "LoadEnv_loop lines (environ w) k = Some v"
      using LoadEnv_loop_last[of line k v post pre "environ w"] by blast
  next
    fix k
    assume "\<forall>l \<in> set lines. \<forall>v. entry l = Some (k, v) \<longrightarrow> \<not> accepted (k, v)"
    then show "LoadEnv_loop lines (environ w) k = environ w k"
      by (rule LoadEnv_loop_untouched)
  qed
qed

theorem C2_LoadEnv_last_accepted_wins_witness:
  "files \<lparr>files = \<lambda>_. Opened [''A=1'', ''A=2''] None, environ = Map.empty\<rparr> ''.env''
     = Opened [''A=1'', ''A=2''] None
   \<and> entry ''A=1'' = Some (''A'', ''1'') \<and> entry ''A=2'' = Some (''A'', ''2'')
   \<and> accepted (''A'', ''2'')
   \<and> environ (snd (LoadEnv ''.env''
        \<lparr>files = \<lambda>_. Opened [''A=1'', ''A=2''] None, environ = Map.empty\<rparr>)) ''A'' = Some ''2''
   \<and> environ (snd (LoadEnv ''.env''
        \<lparr>files = \<lambda>_. Opened [''A=1'', ''A=2''] None, environ = Map.empty\<rparr>)) ''B'' = None"
proof -
  let ?w = "\<lparr>files = \<lambda>_. Opened [''A=1'', ''A=2''] None, environ = Map.empty\<rparr>"
  have h: "files ?w ''.env'' = Opened [''A=1'', ''A=2''] None" by simp
  have e1: "entry ''A=1'' = Some (''A'', ''1'')" by code_simp
  have e2: "entry ''A=2'' = Some (''A'', ''2'')" by code_simp
  have a: "accepted (''A'', ''2'')" by (simp add: accepted_iff)
  note t = C2_LoadEnv_last_accepted_wins [OF h]
  have d: "[''A=1'', ''A=2''] = [''A=1''] @ ''A=2'' # []" by simp
  have "\<forall>l \<in> set []. \<forall>v'. entry l = Some (''A'', v') \<longrightarrow> \<not> accepted (''A'', v')" by simp
  with t d e2 a have 1: "environ (snd (LoadEnv ''.env'' ?w)) ''A'' = Some ''2''" by blast
  have "\<forall>l \<in> set [''A=1'', ''A=2'']. \<forall>v. entry l = Some (''B'', v) \<longrightarrow> \<not> accepted (''B'', v)"
    using e1 e2 by simp
  with t have "environ (snd (LoadEnv ''.env'' ?w)) ''B'' = environ ?w ''B''" by blast
  then have 2: "environ (snd (LoadEnv ''.env'' ?w)) ''B'' = None" by simp
  from h e1 e2 a 1 2 show ?thesis by blast
qed

section \<open>Errors\<close>



section \<open>Frame and idempotence\<close>

text \<open>
  C7.  \<^verbatim>\<open>GetEnv\<close> leaves the world, and so the environment, exactly as it was on
  every outcome, and its result does not depend on what the environment holds.
\<close>

theorem C7_GetEnv_frame:
  "snd (GetEnv key filename w) = w
   \<and> fst (GetEnv key filename (w\<lparr>environ := env\<rparr>)) = fst (GetEnv key filename w)"
  by (simp add: GetEnv_def split: source.split option.split)

text \<open>
  C9.  Running \<^verbatim>\<open>LoadEnv\<close> a second time on the same file gives the result and the
  environment of the first run, from every starting environment and for every content
  of the file.
\<close>

theorem C9_LoadEnv_idempotent:
  "LoadEnv filename (snd (LoadEnv filename w)) = LoadEnv filename w"
  by (simp add: LoadEnv_def LoadEnv_loop_twice split: source.split)

end
